theory Spec2Isabelle
  imports Main "HOL-Library.Word" "HOL-Library.Multiset" "HOL-Library.Sublist"
begin

section \<open>The live-object tracker of VC4CL (src/ObjectTracker.cpp)\<close>

text \<open>
  The tracker owns every API object of the runtime in one container,
  \<^verbatim>\<open>liveObjects\<close>, whose elements are \<^verbatim>\<open>std::unique_ptr<BaseObject>\<close>
  (the lambda of \<^verbatim>\<open>removeObject\<close> takes such an element) kept sorted by address
  (the comment in the destructor says so, and \<^verbatim>\<open>--liveObjects.end()\<close> needs a
  bidirectional, ordered container). The container is modelled by the list of its keys
  in iteration order, that is, in ascending address order.

  An object is identified by its address. What the tracker reads of an object are its
  \<^verbatim>\<open>typeName\<close> and its \<^verbatim>\<open>referenceCount\<close>; the heap maps every address to these
  fields.

  The tracker deletes the objects it owns. \<open>deleted\<close> lists the objects that it has
  deleted and that have not been handed to it anew since. Reading a field of such an
  object, or deleting it once more, is undefined behaviour in C++ (in practice a read
  of freed memory, a crash, or a corrupted allocator): the model records it in
  \<open>faults\<close> and goes on with what the heap holds at that address. Pointers that are
  invalid for another reason (a null pointer, an object that the client has deleted
  itself) are not considered.
\<close>

type_synonym addr = nat

record BaseObject =
  typeName :: string
  referenceCount :: "32 word"

text \<open>
  What is written to \<^verbatim>\<open>std::cout\<close> is kept as the list of the values inserted
  into the stream with \<^verbatim>\<open><<\<close>.
\<close>

datatype out_item = Str string | UInt "32 word" | Ptr addr | Endl

datatype fault = Use_after_free addr | Double_free addr

text \<open>
  The trace records, in program order, the calls of \<^verbatim>\<open>addObject\<close> and
  \<^verbatim>\<open>removeObject\<close>, the acquisitions and releases of \<^verbatim>\<open>trackerMutex\<close> by the
  \<^verbatim>\<open>std::lock_guard\<close>s, and the accesses to the container: \<open>Erase a\<close> for the
  erasure of the element owning \<open>a\<close>, \<open>Access\<close> for every other access
  (\<^verbatim>\<open>empty\<close>, \<^verbatim>\<open>emplace\<close>, \<^verbatim>\<open>find_if\<close>, a range-based \<^verbatim>\<open>for\<close>).
\<close>

datatype event =
    Call_addObject addr
  | Call_removeObject addr
  | Lock
  | Unlock
  | Access
  | Erase addr

record state =
  liveObjects :: "addr list"
  heap :: "addr \<Rightarrow> BaseObject"
  deleted :: "addr list"
  faults :: "fault list"
  cout :: "out_item list"
  trace :: "event list"

text \<open>
  The parts of the program that this file of the repository uses but does not define
  are parameters:
  \<^item> \<open>isDebugLogEnabled\<close>: the result of the function of that name;
  \<^item> \<open>DEBUG_MODE\<close>: whether the macro is defined at compile time;
  \<^item> \<open>dtor_removes a\<close>: the destructor of the object at \<open>a\<close>. Erasing an element
    destroys its \<^verbatim>\<open>unique_ptr\<close>, which deletes the object, and "deleting one object may
    remove another" (comment in the destructor of the tracker): the destructor of an
    object releases the objects it references, which calls \<^verbatim>\<open>removeObject\<close> for those
    that are not referenced any more. \<open>dtor_removes a\<close> lists, in order, the
    objects for which the destructor of \<open>a\<close> calls \<^verbatim>\<open>removeObject\<close>;
  \<^item> \<open>PRINT_API_CALL\<close>: what the macro \<^verbatim>\<open>VC4CL_PRINT_API_CALL\<close> prints, given the
    return type, the name of the function and its pointer arguments with their types.
\<close>

record env =
  isDebugLogEnabled :: bool
  DEBUG_MODE :: bool
  dtor_removes :: "addr \<Rightarrow> addr list"
  PRINT_API_CALL :: "string \<Rightarrow> string \<Rightarrow> (string \<times> addr) list \<Rightarrow> out_item list"

definition emit :: "event \<Rightarrow> state \<Rightarrow> state" where
  "emit e s = s\<lparr>trace := trace s @ [e]\<rparr>"

text \<open>
  Modelled from the spec: the macro \<^verbatim>\<open>LOG\<close> is defined in a header that is not part of
  these sources. The spec calls what it guards a "diagnostic trace" and a report "to a
  diagnostic sink": \<^verbatim>\<open>LOG(stmt)\<close> executes \<open>stmt\<close>, which writes to
  \<^verbatim>\<open>std::cout\<close>.
\<close>

definition LOG :: "out_item list \<Rightarrow> state \<Rightarrow> state" where
  "LOG items s = s\<lparr>cout := cout s @ items\<rparr>"

text \<open>A \<^verbatim>\<open>LOG\<close> under a condition: \<^verbatim>\<open>#ifdef DEBUG_MODE\<close>, or \<^verbatim>\<open>if(isDebugLogEnabled())\<close>.\<close>

definition LOG_if :: "bool \<Rightarrow> out_item list \<Rightarrow> state \<Rightarrow> state" where
  "LOG_if c items s = (if c then LOG items s else s)"

text \<open>
  \<^verbatim>\<open>obj->typeName\<close> and the other reads of a field of the object at \<open>a\<close>: a fault
  when the tracker has deleted the object.
\<close>

definition deref :: "addr \<Rightarrow> state \<Rightarrow> state" where
  "deref a s =
     (if a \<in> set (deleted s) then s\<lparr>faults := faults s @ [Use_after_free a]\<rparr> else s)"

text \<open>The read in the argument of a \<^verbatim>\<open>LOG\<close> under a condition.\<close>

definition deref_if :: "bool \<Rightarrow> addr \<Rightarrow> state \<Rightarrow> state" where
  "deref_if c a s = (if c then deref a s else s)"

text \<open>
  The destructor of a \<^verbatim>\<open>unique_ptr\<close> that owns \<open>a\<close> deletes the object: a fault
  when the object has been deleted before (\<open>begin_delete\<close>); then the destructor of
  the object runs, in the callers below, and at its end the object is gone
  (\<open>end_delete\<close>).
\<close>

definition begin_delete :: "addr \<Rightarrow> state \<Rightarrow> state" where
  "begin_delete a s =
     (if a \<in> set (deleted s) then s\<lparr>faults := faults s @ [Double_free a]\<rparr> else s)"

definition end_delete :: "addr \<Rightarrow> state \<Rightarrow> state" where
  "end_delete a s = s\<lparr>deleted := List.insert a (deleted s)\<rparr>"

text \<open>
  \<^verbatim>\<open>liveObjects.erase(it)\<close>, with \<open>it\<close> at the element that owns \<open>a\<close>: the
  element leaves the container and the destruction of its \<^verbatim>\<open>unique_ptr\<close> begins.
  The destructor of the object follows, in the callers below.
\<close>

definition erase :: "addr \<Rightarrow> state \<Rightarrow> state" where
  "erase a s = begin_delete a (emit (Erase a) (s\<lparr>liveObjects := remove1 a (liveObjects s)\<rparr>))"

subsection \<open>\<^verbatim>\<open>ObjectTracker::removeObject\<close> and the destructors it runs\<close>

text \<open>
  \<open>run_dtor E bs\<close> is the body of a destructor that calls \<^verbatim>\<open>removeObject\<close> for
  the objects \<open>bs\<close>, one after the other. When \<^verbatim>\<open>removeObject\<close> finds the object, the
  element is erased first and the object destroyed then, under the lock that the call
  still holds (the mutex is recursive). Both log lines read \<^verbatim>\<open>obj->typeName\<close>,
  the second one of an object that the container does not hold.
\<close>

function removeObject :: "env \<Rightarrow> addr \<Rightarrow> state \<Rightarrow> state"
  and run_dtor :: "env \<Rightarrow> addr list \<Rightarrow> state \<Rightarrow> state"
where
  "removeObject E obj s =
     (let s0 = emit (Call_removeObject obj) s;
          s1 = emit Lock s0;
          s2 = LOG_if (DEBUG_MODE E)
                 [Str ''Releasing live-time of object: '', Str (typeName (heap s1 obj)), Endl]
                 (deref_if (DEBUG_MODE E) obj s1);
          s3 = emit Access s2;
          s4 = (if obj \<in> set (liveObjects s3)
                then end_delete obj (run_dtor E (dtor_removes E obj) (erase obj s3))
                else LOG_if (isDebugLogEnabled E)
                       [Str ''Removing object not previously tracked: '',
                        Str (typeName (heap s3 obj)), Endl]
                       (deref_if (isDebugLogEnabled E) obj s3))
      in emit Unlock s4)"
| "run_dtor E [] s = s"
| "run_dtor E (b # bs) s = run_dtor E bs (removeObject E b s)"
  by pat_completeness auto

lemma emit_fields [simp]:
  "liveObjects (emit e s) = liveObjects s"
  "heap (emit e s) = heap s"
  "cout (emit e s) = cout s"
  "trace (emit e s) = trace s @ [e]"
  "deleted (emit e s) = deleted s"
  "faults (emit e s) = faults s"
  by (simp_all add: emit_def)

lemma LOG_fields [simp]:
  "liveObjects (LOG xs s) = liveObjects s"
  "heap (LOG xs s) = heap s"
  "cout (LOG xs s) = cout s @ xs"
  "trace (LOG xs s) = trace s"
  "deleted (LOG xs s) = deleted s"
  "faults (LOG xs s) = faults s"
  by (simp_all add: LOG_def)

lemma LOG_if_fields [simp]:
  "liveObjects (LOG_if c xs s) = liveObjects s"
  "heap (LOG_if c xs s) = heap s"
  "cout (LOG_if c xs s) = cout s @ (if c then xs else [])"
  "trace (LOG_if c xs s) = trace s"
  "deleted (LOG_if c xs s) = deleted s"
  "faults (LOG_if c xs s) = faults s"
  by (simp_all add: LOG_if_def)

lemma deref_fields [simp]:
  "liveObjects (deref a s) = liveObjects s"
  "heap (deref a s) = heap s"
  "cout (deref a s) = cout s"
  "trace (deref a s) = trace s"
  "deleted (deref a s) = deleted s"
  "faults (deref a s) = faults s @ (if a \<in> set (deleted s) then [Use_after_free a] else [])"
  by (simp_all add: deref_def)

lemma deref_if_fields [simp]:
  "liveObjects (deref_if c a s) = liveObjects s"
  "heap (deref_if c a s) = heap s"
  "cout (deref_if c a s) = cout s"
  "trace (deref_if c a s) = trace s"
  "deleted (deref_if c a s) = deleted s"
  "faults (deref_if c a s) =
     faults s @ (if c \<and> a \<in> set (deleted s) then [Use_after_free a] else [])"
  by (simp_all add: deref_if_def)

lemma begin_delete_fields [simp]:
  "liveObjects (begin_delete a s) = liveObjects s"
  "heap (begin_delete a s) = heap s"
  "cout (begin_delete a s) = cout s"
  "trace (begin_delete a s) = trace s"
  "deleted (begin_delete a s) = deleted s"
  "faults (begin_delete a s) = faults s @ (if a \<in> set (deleted s) then [Double_free a] else [])"
  by (simp_all add: begin_delete_def)

lemma end_delete_fields [simp]:
  "liveObjects (end_delete a s) = liveObjects s"
  "heap (end_delete a s) = heap s"
  "cout (end_delete a s) = cout s"
  "trace (end_delete a s) = trace s"
  "deleted (end_delete a s) = List.insert a (deleted s)"
  "faults (end_delete a s) = faults s"
  by (simp_all add: end_delete_def)

lemma erase_fields [simp]:
  "liveObjects (erase a s) = remove1 a (liveObjects s)"
  "heap (erase a s) = heap s"
  "cout (erase a s) = cout s"
  "trace (erase a s) = trace s @ [Erase a]"
  "deleted (erase a s) = deleted s"
  "faults (erase a s) = faults s @ (if a \<in> set (deleted s) then [Double_free a] else [])"
  by (simp_all add: erase_def)

text \<open>
  Every nested call finds the container no longer than it was, which is what makes
  the recursion end: each object found is erased before its destructor runs.
\<close>

lemma length_liveObjects_dom:
  "removeObject_run_dtor_dom (Inl (E, obj, s)) \<Longrightarrow>
     length (liveObjects (removeObject E obj s)) \<le> length (liveObjects s)"
  "removeObject_run_dtor_dom (Inr (E, bs, s)) \<Longrightarrow>
     length (liveObjects (run_dtor E bs s)) \<le> length (liveObjects s)"
proof (induction E obj s and E bs s rule: removeObject_run_dtor.pinduct)
  case (1 E obj s)
  show ?case
  proof (cases "obj \<in> set (liveObjects s)")
    case True
    with "1.IH"[OF refl refl refl refl] "1.hyps" show ?thesis
      by (simp add: removeObject.psimps Let_def length_remove1)
  next
    case False
    then show ?thesis
      using "1.hyps" by (simp add: removeObject.psimps Let_def)
  qed
next
  case (2 E s)
  then show ?case by (simp add: run_dtor.psimps)
next
  case (3 E b bs s)
  then show ?case by (simp add: run_dtor.psimps)
qed

termination removeObject
proof (relation "inv_image (less_than <*lex*> less_than)
     (\<lambda>x. case x of Inl (E, obj, s) \<Rightarrow> (length (liveObjects s), 0)
                   | Inr (E, bs, s) \<Rightarrow> (length (liveObjects s), Suc (length bs)))", goal_cases)
  case 1
  show ?case by (intro wf_inv_image wf_lex_prod wf_less_than)
next
  case (2 E obj s s0 s1 s2 s3)
  then show ?case
    using length_pos_if_in_set[of obj "liveObjects s"] by (simp add: length_remove1)
next
  case (3 E b bs s)
  then show ?case by simp
next
  case (4 E b bs s)
  then show ?case
    using length_liveObjects_dom(1)[of E b s] by (auto simp: le_less)
qed

declare removeObject.simps [simp del]



text \<open>Each object found and erased takes one element out of the container.\<close>

lemma length_liveObjects_le:
  "length (liveObjects (removeObject E obj s)) \<le> length (liveObjects s)"
  "length (liveObjects (run_dtor E bs s)) \<le> length (liveObjects s)"
proof (induction E obj s and E bs s rule: removeObject_run_dtor.induct)
  case (1 E obj s)
  show ?case
  proof (cases "obj \<in> set (liveObjects s)")
    case True
    with "1.IH"[OF refl refl refl refl] show ?thesis
      by (simp add: removeObject.simps Let_def length_remove1)
  next
    case False
    then show ?thesis
      by (simp add: removeObject.simps Let_def)
  qed
next
  case (2 E s)
  show ?case by simp
next
  case (3 E b bs s)
  then show ?case by simp
qed

subsection \<open>\<^verbatim>\<open>ObjectTracker::addObject\<close>\<close>

text \<open>
  \<^verbatim>\<open>liveObjects.emplace(obj)\<close> builds the \<^verbatim>\<open>unique_ptr\<close> that owns \<open>obj\<close> and
  inserts it at its place in the order of addresses. When an element with the same
  address is in the container already, nothing is inserted and the new
  \<^verbatim>\<open>unique_ptr\<close> is destroyed at once, which deletes the object it owns: the
  destructor of \<open>obj\<close> runs and the object is gone, while the element that was in
  the container stays there. An object that is inserted has just been created by the
  caller, also when its address is that of an object deleted before.
\<close>

definition emplace :: "env \<Rightarrow> addr \<Rightarrow> state \<Rightarrow> state" where
  "emplace E obj s =
     (let s1 = emit Access s
      in if obj \<in> set (liveObjects s1)
         then end_delete obj (run_dtor E (dtor_removes E obj) (begin_delete obj s1))
         else s1\<lparr>liveObjects := insort obj (liveObjects s1),
                 deleted := removeAll obj (deleted s1)\<rparr>)"

definition addObject :: "env \<Rightarrow> addr \<Rightarrow> state \<Rightarrow> state" where
  "addObject E obj s =
     (let s0 = emit (Call_addObject obj) s;
          s1 = emit Lock s0;
          s2 = emplace E obj s1;
          s3 = LOG_if (DEBUG_MODE E)
                 [Str ''Tracking live-time of object: '', Str (typeName (heap s2 obj)), Endl]
                 (deref_if (DEBUG_MODE E) obj s2)
      in emit Unlock s3)"

subsection \<open>\<^verbatim>\<open>ObjectTracker::iterateObjects\<close> and \<^verbatim>\<open>clReportLiveObjectsAltera\<close>\<close>

text \<open>
  Modelled from the spec: the virtual function \<^verbatim>\<open>getBasePointer()\<close> is declared in a
  header that is not part of these sources. The spec says that the visitor is passed "a
  non-owning identity token" of the object: here, the address that identifies it.
\<close>

definition getBasePointer :: "addr \<Rightarrow> addr" where
  "getBasePointer obj = obj"

text \<open>
  The callback returns nothing and works on what \<^verbatim>\<open>userData\<close> points to; here it
  takes that value and returns the new one. It has no access to the tracker.
\<close>

definition iterateObjects ::
  "('u \<Rightarrow> addr \<Rightarrow> string \<Rightarrow> 32 word \<Rightarrow> 'u) \<Rightarrow> 'u \<Rightarrow> state \<Rightarrow> 'u \<times> state" where
  "iterateObjects func userData s =
     (let s1 = emit Lock s;
          s2 = emit Access s1;
          u = fold (\<lambda>obj u. func u (getBasePointer obj) (typeName (heap s2 obj))
                              (referenceCount (heap s2 obj)))
                (liveObjects s2) userData;
          s3 = fold deref (liveObjects s2) s2
      in (u, emit Unlock s3))"

definition VC4CL_PRINT_API_CALL ::
  "env \<Rightarrow> string \<Rightarrow> string \<Rightarrow> (string \<times> addr) list \<Rightarrow> state \<Rightarrow> state" where
  "VC4CL_PRINT_API_CALL E ret name args s = s\<lparr>cout := cout s @ PRINT_API_CALL E ret name args\<rparr>"

text \<open>
  Of the arguments that the macro is given, the platform is the one that the model has
  as an address; the callback and its user data are passed on to \<open>iterateObjects\<close>.
\<close>

definition clReportLiveObjectsAltera ::
  "env \<Rightarrow> addr \<Rightarrow> ('u \<Rightarrow> addr \<Rightarrow> string \<Rightarrow> 32 word \<Rightarrow> 'u) \<Rightarrow> 'u \<Rightarrow> state \<Rightarrow> 'u \<times> state" where
  "clReportLiveObjectsAltera E platform report_fn user_data s =
     iterateObjects report_fn user_data
       (VC4CL_PRINT_API_CALL E ''void'' ''clReportLiveObjectsAltera''
          [(''cl_platform_id'', platform)] s)"

subsection \<open>\<^verbatim>\<open>clTrackLiveObjectsAltera\<close>\<close>

definition clTrackLiveObjectsAltera :: "env \<Rightarrow> addr \<Rightarrow> state \<Rightarrow> state" where
  "clTrackLiveObjectsAltera E platform s =
     VC4CL_PRINT_API_CALL E ''void'' ''clTrackLiveObjectsAltera'' [(''cl_platform_id'', platform)] s"

subsection \<open>\<^verbatim>\<open>ObjectTracker::findTrackedObject\<close>\<close>

text \<open>
  The predicate is given a reference to the object: its address and its fields. The
  loop returns at the first object that satisfies it; \<open>None\<close> is \<^verbatim>\<open>nullptr\<close>.
\<close>

fun find_first :: "(addr \<Rightarrow> BaseObject \<Rightarrow> bool) \<Rightarrow> (addr \<Rightarrow> BaseObject) \<Rightarrow> addr list \<Rightarrow> addr option" where
  "find_first predicate h [] = None"
| "find_first predicate h (obj # objs) =
     (if predicate obj (h obj) then Some obj else find_first predicate h objs)"

text \<open>The objects that the loop hands to the predicate: those up to the first match.\<close>

fun visited :: "(addr \<Rightarrow> BaseObject \<Rightarrow> bool) \<Rightarrow> (addr \<Rightarrow> BaseObject) \<Rightarrow> addr list \<Rightarrow> addr list" where
  "visited predicate h [] = []"
| "visited predicate h (obj # objs) =
     obj # (if predicate obj (h obj) then [] else visited predicate h objs)"

definition findTrackedObject :: "(addr \<Rightarrow> BaseObject \<Rightarrow> bool) \<Rightarrow> state \<Rightarrow> addr option \<times> state" where
  "findTrackedObject predicate s =
     (let s1 = emit Lock s;
          s2 = emit Access s1;
          s3 = fold deref (visited predicate (heap s2) (liveObjects s2)) s2
      in (find_first predicate (heap s2) (liveObjects s2), emit Unlock s3))"

subsection \<open>\<^verbatim>\<open>ObjectTracker::~ObjectTracker\<close>\<close>

text \<open>The line written for one object that is still alive.\<close>

definition leak_line :: "BaseObject \<Rightarrow> out_item list" where
  "leak_line obj =
     [Str ''[VC4CL] Leaked object with '', UInt (referenceCount obj), Str '' references: '',
      Str (typeName obj), Str [CHR 0x0A]]"

text \<open>
  The first statement of the destructor. \<^verbatim>\<open>&&\<close> evaluates
  \<^verbatim>\<open>!liveObjects.empty()\<close> only when the debug log is enabled.
\<close>

definition report_leaks :: "env \<Rightarrow> state \<Rightarrow> state" where
  "report_leaks E s =
     (if isDebugLogEnabled E
      then (let s1 = emit Access s
            in if liveObjects s1 \<noteq> []
               then LOG [Endl]
                      (fold (\<lambda>obj t. LOG (leak_line (heap t obj)) (deref obj t)) (liveObjects s1)
                         (emit Access s1))
               else s1)
      else s)"

text \<open>
  \<^verbatim>\<open>liveObjects.erase(--liveObjects.end())\<close>: the last element, the one with the
  highest address, leaves the container and the destruction of its \<^verbatim>\<open>unique_ptr\<close>
  begins.
\<close>

definition erase_back :: "state \<Rightarrow> state" where
  "erase_back s =
     begin_delete (last (liveObjects s))
       (emit (Erase (last (liveObjects s))) (s\<lparr>liveObjects := butlast (liveObjects s)\<rparr>))"

lemma erase_back_fields [simp]:
  "liveObjects (erase_back s) = butlast (liveObjects s)"
  "heap (erase_back s) = heap s"
  "cout (erase_back s) = cout s"
  "trace (erase_back s) = trace s @ [Erase (last (liveObjects s))]"
  "deleted (erase_back s) = deleted s"
  "faults (erase_back s) =
     faults s @ (if last (liveObjects s) \<in> set (deleted s)
                 then [Double_free (last (liveObjects s))] else [])"
  by (simp_all add: erase_back_def)

text \<open>
  The \<^verbatim>\<open>while\<close> loop of the destructor. Each round tests the container as it is
  then, erases its last element and runs the destructor of the object erased. No lock
  is taken.
\<close>

function sweep :: "env \<Rightarrow> state \<Rightarrow> state" where
  "sweep E s =
     (let s1 = emit Access s
      in if liveObjects s1 \<noteq> []
         then sweep E (end_delete (last (liveObjects s1))
                         (run_dtor E (dtor_removes E (last (liveObjects s1))) (erase_back s1)))
         else s1)"
  by pat_completeness auto

termination sweep
proof (relation "measure (\<lambda>(E, s). length (liveObjects s))", goal_cases)
  case 1
  show ?case by simp
next
  case (2 E s s1)
  let ?s' = "end_delete (last (liveObjects s1))
               (run_dtor E (dtor_removes E (last (liveObjects s1))) (erase_back s1))"
  have "length (liveObjects ?s')
        = length (liveObjects (run_dtor E (dtor_removes E (last (liveObjects s1))) (erase_back s1)))"
    by simp
  also have "\<dots> \<le> length (liveObjects (erase_back s1))"
    by (rule length_liveObjects_le)
  also have "\<dots> = length (liveObjects s) - 1"
    using 2 by simp
  also have "\<dots> < length (liveObjects s)"
    using 2 by (cases "liveObjects s") simp_all
  finally show ?case by simp
qed

declare sweep.simps [simp del]

definition ObjectTracker_destructor :: "env \<Rightarrow> state \<Rightarrow> state" where
  "ObjectTracker_destructor E s = sweep E (report_leaks E s)"

subsection \<open>Sequences of calls\<close>

text \<open>
  \<^verbatim>\<open>liveObjectsTracker\<close> is a static object: its container is empty when the program
  starts, and it has deleted nothing yet.
\<close>

definition initial_tracker :: "(addr \<Rightarrow> BaseObject) \<Rightarrow> state" where
  "initial_tracker h =
     \<lparr>liveObjects = [], heap = h, deleted = [], faults = [], cout = [], trace = []\<rparr>"

datatype call = Add addr | Remove addr

fun apply_call :: "env \<Rightarrow> call \<Rightarrow> state \<Rightarrow> state" where
  "apply_call E (Add obj) s = addObject E obj s"
| "apply_call E (Remove obj) s = removeObject E obj s"

definition run_calls :: "env \<Rightarrow> call list \<Rightarrow> state \<Rightarrow> state" where
  "run_calls E calls s = fold (apply_call E) calls s"

subsection \<open>Reading the trace\<close>

text \<open>
  \<open>added_not_removed a es\<close>: in the trace \<open>es\<close>, \<^verbatim>\<open>addObject\<close> has been called
  for \<open>a\<close> and \<^verbatim>\<open>removeObject\<close> has not been called for \<open>a\<close> since, neither by the
  client nor by a destructor.
\<close>

fun last_call :: "addr \<Rightarrow> bool \<Rightarrow> event list \<Rightarrow> bool" where
  "last_call a p [] = p"
| "last_call a p (Call_addObject b # es) = last_call a (if b = a then True else p) es"
| "last_call a p (Call_removeObject b # es) = last_call a (if b = a then False else p) es"
| "last_call a p (e # es) = last_call a p es"

definition added_not_removed :: "addr \<Rightarrow> event list \<Rightarrow> bool" where
  "added_not_removed a es = last_call a False es"

text \<open>The objects whose elements were erased, in the order of the erasures.\<close>

fun erased :: "event list \<Rightarrow> addr list" where
  "erased [] = []"
| "erased (Erase a # es) = a # erased es"
| "erased (e # es) = erased es"

text \<open>
  \<open>lock_discipline d es\<close> follows the events \<open>es\<close> of one thread that holds the
  recursive mutex \<open>d\<close> times at the start. It is \<open>None\<close> when the container is
  accessed, or the mutex released, while the thread does not hold the mutex; otherwise
  it is the number of times the thread holds the mutex at the end.
\<close>

fun lock_discipline :: "nat \<Rightarrow> event list \<Rightarrow> nat option" where
  "lock_discipline d [] = Some d"
| "lock_discipline d (Lock # es) = lock_discipline (Suc d) es"
| "lock_discipline d (Unlock # es) = (if d = 0 then None else lock_discipline (d - 1) es)"
| "lock_discipline d (Access # es) = (if d = 0 then None else lock_discipline d es)"
| "lock_discipline d (Erase a # es) = (if d = 0 then None else lock_discipline d es)"
| "lock_discipline d (Call_addObject a # es) = lock_discipline d es"
| "lock_discipline d (Call_removeObject a # es) = lock_discipline d es"

text \<open>A callback for \<open>iterateObjects\<close> that keeps the list of what it was called with.\<close>

definition record_call ::
  "(addr \<times> string \<times> 32 word) list \<Rightarrow> addr \<Rightarrow> string \<Rightarrow> 32 word \<Rightarrow> (addr \<times> string \<times> 32 word) list" where
  "record_call u obj_ptr type_name refcount = u @ [(obj_ptr, type_name, refcount)]"

text \<open>A predicate for \<open>findTrackedObject\<close> that every object satisfies.\<close>

definition any_object :: "addr \<Rightarrow> BaseObject \<Rightarrow> bool" where
  "any_object a obj = True"

text \<open>The event with which a call of the client starts.\<close>

fun call_event :: "call \<Rightarrow> event" where
  "call_event (Add obj) = Call_addObject obj"
| "call_event (Remove obj) = Call_removeObject obj"

text \<open>
  What holds of the tracker between two calls: the container is sorted and without
  duplicates, as a \<^verbatim>\<open>std::set\<close> is, and it holds the objects added and not removed
  since.
\<close>

definition tracker_inv :: "state \<Rightarrow> bool" where
  "tracker_inv s \<longleftrightarrow>
     sorted (liveObjects s) \<and> distinct (liveObjects s)
     \<and> (\<forall>a. a \<in> set (liveObjects s) \<longleftrightarrow> added_not_removed a (trace s))"

text \<open>A predicate for \<open>findTrackedObject\<close> that the command queues satisfy.\<close>

definition is_queue :: "addr \<Rightarrow> BaseObject \<Rightarrow> bool" where
  "is_queue a obj \<longleftrightarrow> typeName obj = ''cl_command_queue''"

subsection \<open>Concrete trackers\<close>

text \<open>
  Three objects, a context at address 1, a command queue at address 2 and a buffer at
  any other address, each referenced once.
\<close>

definition example_heap :: "addr \<Rightarrow> BaseObject" where
  "example_heap a =
     \<lparr>typeName = (if a = 1 then ''cl_context'' else if a = 2 then ''cl_command_queue'' else ''cl_mem''),
      referenceCount = 1\<rparr>"

definition tracker_of :: "addr list \<Rightarrow> state" where
  "tracker_of xs =
     \<lparr>liveObjects = xs, heap = example_heap, deleted = [], faults = [], cout = [], trace = []\<rparr>"

definition no_removes :: "addr \<Rightarrow> addr list" where
  "no_removes a = []"

definition no_api_print :: "string \<Rightarrow> string \<Rightarrow> (string \<times> addr) list \<Rightarrow> out_item list" where
  "no_api_print ret name args = []"

text \<open>No debug output, and destructors that release nothing.\<close>

definition quiet_env :: env where
  "quiet_env = \<lparr>isDebugLogEnabled = False, DEBUG_MODE = False,
                 dtor_removes = no_removes, PRINT_API_CALL = no_api_print\<rparr>"

text \<open>The same with the debug log enabled.\<close>

definition debug_env :: env where
  "debug_env = \<lparr>isDebugLogEnabled = True, DEBUG_MODE = False,
                 dtor_removes = no_removes, PRINT_API_CALL = no_api_print\<rparr>"

text \<open>
  The command queue at address 2 holds the last reference to the context at address 1:
  its destructor removes the context.
\<close>

definition queue_releases_context :: "addr \<Rightarrow> addr list" where
  "queue_releases_context a = (if a = 2 then [1] else [])"

definition cascade_env :: env where
  "cascade_env = \<lparr>isDebugLogEnabled = False, DEBUG_MODE = False,
                   dtor_removes = queue_releases_context, PRINT_API_CALL = no_api_print\<rparr>"

text \<open>
  The objects at the addresses 2 and 3 reference one another: the destructor of each
  removes the other.
\<close>

definition reference_one_another :: "addr \<Rightarrow> addr list" where
  "reference_one_another a = (if a = 2 then [3] else if a = 3 then [2] else [])"

definition mutual_env :: env where
  "mutual_env = \<lparr>isDebugLogEnabled = False, DEBUG_MODE = False,
                  dtor_removes = reference_one_another, PRINT_API_CALL = no_api_print\<rparr>"

lemmas example_defs =
  example_heap_def tracker_of_def no_removes_def no_api_print_def quiet_env_def debug_env_def
  queue_releases_context_def cascade_env_def reference_one_another_def mutual_env_def
  getBasePointer_def

section \<open>Properties of the operations\<close>

subsection \<open>Reading a trace in two parts\<close>

lemma lock_discipline_append:
  "lock_discipline d (xs @ ys) =
     (case lock_discipline d xs of None \<Rightarrow> None | Some d' \<Rightarrow> lock_discipline d' ys)"
  by (induction d xs rule: lock_discipline.induct) simp_all

lemma erased_append: "erased (xs @ ys) = erased xs @ erased ys"
  by (induction xs rule: erased.induct) simp_all

lemma last_call_append: "last_call a p (xs @ ys) = last_call a (last_call a p xs) ys"
  by (induction a p xs rule: last_call.induct) simp_all

lemma added_not_removed_append:
  "added_not_removed a (es @ es') = last_call a (added_not_removed a es) es'"
  by (simp add: added_not_removed_def last_call_append)

subsection \<open>The two branches of \<^verbatim>\<open>removeObject\<close>\<close>

lemma removeObject_found:
  "obj \<in> set (liveObjects s) \<Longrightarrow>
   removeObject E obj s =
     emit Unlock (end_delete obj (run_dtor E (dtor_removes E obj)
       (erase obj (emit Access (LOG_if (DEBUG_MODE E)
          [Str ''Releasing live-time of object: '', Str (typeName (heap s obj)), Endl]
          (deref_if (DEBUG_MODE E) obj (emit Lock (emit (Call_removeObject obj) s))))))))"
  by (simp add: removeObject.simps Let_def)

lemma removeObject_not_found:
  "obj \<notin> set (liveObjects s) \<Longrightarrow>
   removeObject E obj s =
     emit Unlock (LOG_if (isDebugLogEnabled E)
        [Str ''Removing object not previously tracked: '', Str (typeName (heap s obj)), Endl]
        (deref_if (isDebugLogEnabled E) obj
          (emit Access (LOG_if (DEBUG_MODE E)
            [Str ''Releasing live-time of object: '', Str (typeName (heap s obj)), Endl]
            (deref_if (DEBUG_MODE E) obj (emit Lock (emit (Call_removeObject obj) s)))))))"
  by (simp add: removeObject.simps Let_def)

subsection \<open>What a call of \<^verbatim>\<open>removeObject\<close> and a destructor leave unchanged\<close>

lemma heap_removeObject:
  "heap (removeObject E obj s) = heap s"
  "heap (run_dtor E bs s) = heap s"
proof (induction E obj s and E bs s rule: removeObject_run_dtor.induct)
  case (1 E obj s)
  show ?case
  proof (cases "obj \<in> set (liveObjects s)")
    case True
    with "1.IH"[OF refl refl refl refl] show ?thesis
      by (simp add: removeObject_found)
  next
    case False
    then show ?thesis by (simp add: removeObject_not_found)
  qed
qed simp_all

lemma cout_removeObject:
  "\<exists>out. cout (removeObject E obj s) = cout s @ out"
  "\<exists>out. cout (run_dtor E bs s) = cout s @ out"
proof (induction E obj s and E bs s rule: removeObject_run_dtor.induct)
  case (1 E obj s)
  show ?case
  proof (cases "obj \<in> set (liveObjects s)")
    case True
    with "1.IH"[OF refl refl refl refl] show ?thesis
      by (auto simp: removeObject_found)
  next
    case False
    then show ?thesis by (simp add: removeObject_not_found)
  qed
next
  case (2 E s)
  show ?case by simp
next
  case (3 E b bs s)
  then show ?case by (metis append.assoc run_dtor.simps(2))
qed

lemma run_dtor_untracked:
  "set bs \<inter> set (liveObjects s) = {} \<Longrightarrow> liveObjects (run_dtor E bs s) = liveObjects s"
proof (induction bs arbitrary: s)
  case Nil
  show ?case by simp
next
  case (Cons b bs)
  then have "b \<notin> set (liveObjects s)" by simp
  then have "liveObjects (removeObject E b s) = liveObjects s"
    by (simp add: removeObject_not_found)
  with Cons show ?case by simp
qed

text \<open>
  The events of a call, nested calls included, respect the lock however often the thread
  holds it already, and every object that leaves the container is erased once.
\<close>

lemma trace_removeObject:
  "\<exists>es. trace (removeObject E obj s) = trace s @ es
        \<and> (\<forall>d. lock_discipline d es = Some d)
        \<and> mset (erased es) + mset (liveObjects (removeObject E obj s)) = mset (liveObjects s)"
  "\<exists>es. trace (run_dtor E bs s) = trace s @ es
        \<and> (\<forall>d. lock_discipline d es = Some d)
        \<and> mset (erased es) + mset (liveObjects (run_dtor E bs s)) = mset (liveObjects s)"
proof (induction E obj s and E bs s rule: removeObject_run_dtor.induct)
  case (1 E obj s)
  show ?case
  proof (cases "obj \<in> set (liveObjects s)")
    case True
    let ?t = "erase obj (emit Access (LOG_if (DEBUG_MODE E)
          [Str ''Releasing live-time of object: '', Str (typeName (heap s obj)), Endl]
          (deref_if (DEBUG_MODE E) obj (emit Lock (emit (Call_removeObject obj) s)))))"
    from "1.IH"[OF refl refl refl refl] True
    obtain es where es: "trace (run_dtor E (dtor_removes E obj) ?t) = trace ?t @ es"
      "\<And>d. lock_discipline d es = Some d"
      "mset (erased es) + mset (liveObjects (run_dtor E (dtor_removes E obj) ?t)) = mset (liveObjects ?t)"
      by auto
    let ?es = "[Call_removeObject obj, Lock, Access, Erase obj] @ es @ [Unlock]"
    have "trace (removeObject E obj s) = trace s @ ?es"
      using True es(1) by (simp add: removeObject_found)
    moreover have "\<forall>d. lock_discipline d ?es = Some d"
      by (simp add: lock_discipline_append es(2))
    moreover have "mset (erased ?es) + mset (liveObjects (removeObject E obj s)) = mset (liveObjects s)"
      using True es(3) by (simp add: removeObject_found erased_append)
    ultimately show ?thesis by blast
  next
    case False
    then show ?thesis by (simp add: removeObject_not_found)
  qed
next
  case (2 E s)
  show ?case by simp
next
  case (3 E b bs s)
  from "3.IH"(1) obtain es1 where es1: "trace (removeObject E b s) = trace s @ es1"
      "\<And>d. lock_discipline d es1 = Some d"
      "mset (erased es1) + mset (liveObjects (removeObject E b s)) = mset (liveObjects s)"
    by auto
  from "3.IH"(2) obtain es2 where es2:
      "trace (run_dtor E bs (removeObject E b s)) = trace (removeObject E b s) @ es2"
      "\<And>d. lock_discipline d es2 = Some d"
      "mset (erased es2) + mset (liveObjects (run_dtor E bs (removeObject E b s)))
         = mset (liveObjects (removeObject E b s))"
    by auto
  have "trace (run_dtor E (b # bs) s) = trace s @ (es1 @ es2)"
    using es1(1) es2(1) by simp
  moreover have "\<forall>d. lock_discipline d (es1 @ es2) = Some d"
    by (simp add: lock_discipline_append es1(2) es2(2))
  moreover have "mset (erased (es1 @ es2)) + mset (liveObjects (run_dtor E (b # bs) s))
        = mset (liveObjects s)"
    using es1(3) es2(3) by (simp add: erased_append ac_simps)
  ultimately show ?case by blast
qed

lemma trace_addObject:
  "\<exists>es. trace (addObject E obj s) = trace s @ Call_addObject obj # es
        \<and> lock_discipline 0 es = Some 0"
proof (cases "obj \<in> set (liveObjects s)")
  case True
  let ?t = "begin_delete obj (emit Access (emit Lock (emit (Call_addObject obj) s)))"
  obtain es where es: "trace (run_dtor E (dtor_removes E obj) ?t) = trace ?t @ es"
    "\<And>d. lock_discipline d es = Some d"
    using trace_removeObject(2)[of E "dtor_removes E obj" ?t] by blast
  have "trace (addObject E obj s) = trace s @ Call_addObject obj # ([Lock, Access] @ es @ [Unlock])"
    using True es(1) by (simp add: addObject_def emplace_def Let_def)
  moreover have "lock_discipline 0 ([Lock, Access] @ es @ [Unlock]) = Some 0"
    by (simp add: lock_discipline_append es(2))
  ultimately show ?thesis by blast
next
  case False
  then have "trace (addObject E obj s) = trace s @ Call_addObject obj # [Lock, Access, Unlock]"
    by (simp add: addObject_def emplace_def Let_def)
  moreover have "lock_discipline 0 [Lock, Access, Unlock] = Some 0" by simp
  ultimately show ?thesis by blast
qed

lemma trace_removeObject_call:
  "\<exists>es. trace (removeObject E obj s) = trace s @ Call_removeObject obj # es
        \<and> lock_discipline 0 es = Some 0"
proof (cases "obj \<in> set (liveObjects s)")
  case True
  let ?t = "erase obj (emit Access (LOG_if (DEBUG_MODE E)
          [Str ''Releasing live-time of object: '', Str (typeName (heap s obj)), Endl]
          (deref_if (DEBUG_MODE E) obj (emit Lock (emit (Call_removeObject obj) s)))))"
  obtain es where es: "trace (run_dtor E (dtor_removes E obj) ?t) = trace ?t @ es"
    "\<And>d. lock_discipline d es = Some d"
    using trace_removeObject(2)[of E "dtor_removes E obj" ?t] by blast
  have "trace (removeObject E obj s)
        = trace s @ Call_removeObject obj # ([Lock, Access, Erase obj] @ es @ [Unlock])"
    using True es(1) by (simp add: removeObject_found)
  moreover have "lock_discipline 0 ([Lock, Access, Erase obj] @ es @ [Unlock]) = Some 0"
    by (simp add: lock_discipline_append es(2))
  ultimately show ?thesis by blast
next
  case False
  then have "trace (removeObject E obj s) = trace s @ Call_removeObject obj # [Lock, Access, Unlock]"
    by (simp add: removeObject_not_found)
  moreover have "lock_discipline 0 [Lock, Access, Unlock] = Some 0" by simp
  ultimately show ?thesis by blast
qed

lemma trace_run_calls:
  "\<exists>es. trace (run_calls E calls s) = trace s @ es \<and> subseq (map call_event calls) es"
  unfolding run_calls_def
proof (induction calls arbitrary: s)
  case Nil
  show ?case by simp
next
  case (Cons c calls)
  obtain es1 where es1: "trace (apply_call E c s) = trace s @ call_event c # es1"
    using trace_addObject[of E _ s] trace_removeObject_call[of E _ s]
    by (cases c) (simp, blast, simp, blast)
  obtain es2 where es2: "trace (fold (apply_call E) calls (apply_call E c s))
       = trace (apply_call E c s) @ es2" "subseq (map call_event calls) es2"
    using Cons.IH by blast
  have "trace (fold (apply_call E) (c # calls) s) = trace s @ (call_event c # es1 @ es2)"
    using es1 es2(1) by simp
  moreover have "subseq (map call_event (c # calls)) (call_event c # es1 @ es2)"
    using es2(2) by (simp add: subseq_drop_many)
  ultimately show ?case by blast
qed

subsection \<open>The invariant of the tracker\<close>

lemma tracker_inv_removeObject:
  "tracker_inv s \<Longrightarrow> tracker_inv (removeObject E obj s)"
  "tracker_inv s \<Longrightarrow> tracker_inv (run_dtor E bs s)"
proof (induction E obj s and E bs s rule: removeObject_run_dtor.induct)
  case (1 E obj s)
  show ?case
  proof (cases "obj \<in> set (liveObjects s)")
    case True
    let ?t = "erase obj (emit Access (LOG_if (DEBUG_MODE E)
          [Str ''Releasing live-time of object: '', Str (typeName (heap s obj)), Endl]
          (deref_if (DEBUG_MODE E) obj (emit Lock (emit (Call_removeObject obj) s)))))"
    have "tracker_inv ?t"
      using "1.prems" by (auto simp: tracker_inv_def added_not_removed_append sorted_remove1)
    with "1.IH"[OF refl refl refl refl] True
    have "tracker_inv (run_dtor E (dtor_removes E obj) ?t)" by simp
    then show ?thesis
      using True by (simp add: removeObject_found tracker_inv_def added_not_removed_append)
  next
    case False
    then show ?thesis
      using "1.prems"
      by (auto simp: removeObject_not_found tracker_inv_def added_not_removed_append)
  qed
next
  case (2 E s)
  then show ?case by simp
next
  case (3 E b bs s)
  then show ?case by simp
qed

lemma tracker_inv_addObject:
  assumes "tracker_inv s"
  shows "tracker_inv (addObject E obj s)"
proof (cases "obj \<in> set (liveObjects s)")
  case True
  let ?t = "begin_delete obj (emit Access (emit Lock (emit (Call_addObject obj) s)))"
  have "tracker_inv ?t"
    using assms True by (auto simp: tracker_inv_def added_not_removed_append)
  then have "tracker_inv (run_dtor E (dtor_removes E obj) ?t)"
    by (rule tracker_inv_removeObject)
  then show ?thesis
    using True by (simp add: addObject_def emplace_def Let_def tracker_inv_def added_not_removed_append)
next
  case False
  then show ?thesis
    using assms
    by (auto simp: addObject_def emplace_def Let_def tracker_inv_def added_not_removed_append
        sorted_insort distinct_insort set_insort_key)
qed

lemma tracker_inv_run_calls:
  "tracker_inv s \<Longrightarrow> tracker_inv (run_calls E calls s)"
  unfolding run_calls_def
proof (induction calls arbitrary: s)
  case Nil
  then show ?case by simp
next
  case (Cons c calls)
  have "tracker_inv (apply_call E c s)"
    using Cons.prems by (cases c) (simp_all add: tracker_inv_addObject tracker_inv_removeObject)
  then show ?case using Cons.IH by simp
qed

lemma tracker_inv_initial: "tracker_inv (initial_tracker h)"
  by (simp add: tracker_inv_def initial_tracker_def added_not_removed_def)

subsection \<open>The destructor of the tracker\<close>

lemma sweep_unfold:
  "sweep E s =
     (if liveObjects s = [] then emit Access s
      else sweep E (end_delete (last (liveObjects s))
             (run_dtor E (dtor_removes E (last (liveObjects s))) (erase_back (emit Access s)))))"
  by (subst sweep.simps) (simp add: Let_def)

lemma sweep_effect:
  "liveObjects (sweep E s) = []
   \<and> (\<exists>es. trace (sweep E s) = trace s @ Access # es
           \<and> mset (erased es) = mset (liveObjects s))"
proof (induction E s rule: sweep.induct)
  case (1 E s)
  show ?case
  proof (cases "liveObjects s = []")
    case True
    then show ?thesis by (simp add: sweep_unfold)
  next
    case False
    let ?a = "last (liveObjects s)"
    let ?t = "end_delete ?a (run_dtor E (dtor_removes E ?a) (erase_back (emit Access s)))"
    from "1.IH"[OF refl] False
    obtain es where es: "liveObjects (sweep E ?t) = []"
      "trace (sweep E ?t) = trace ?t @ Access # es" "mset (erased es) = mset (liveObjects ?t)"
      by auto
    obtain es1 where es1: "trace ?t = trace (erase_back (emit Access s)) @ es1"
      "mset (erased es1) + mset (liveObjects ?t) = mset (liveObjects (erase_back (emit Access s)))"
      using trace_removeObject(2)[of E "dtor_removes E ?a" "erase_back (emit Access s)"]
      by auto
    let ?es = "Erase ?a # es1 @ Access # es"
    have eq: "sweep E s = sweep E ?t"
      using False by (subst sweep_unfold) simp
    have "trace (sweep E s) = trace s @ Access # ?es"
      using es(2) es1(1) by (simp add: eq)
    moreover have "mset (liveObjects s) = add_mset ?a (mset (butlast (liveObjects s)))"
      using False by (metis append_butlast_last_id mset.simps(2) mset_append union_mset_add_mset_right add.right_neutral mset.simps(1))
    then have "mset (erased ?es) = mset (liveObjects s)"
      using es(3) es1(2) by (simp add: erased_append)
    ultimately show ?thesis
      using es(1) eq by auto
  qed
qed

lemma cout_sweep: "\<exists>out. cout (sweep E s) = cout s @ out"
proof (induction E s rule: sweep.induct)
  case (1 E s)
  show ?case
  proof (cases "liveObjects s = []")
    case True
    then show ?thesis by (simp add: sweep_unfold)
  next
    case False
    let ?t = "end_delete (last (liveObjects s))
                (run_dtor E (dtor_removes E (last (liveObjects s))) (erase_back (emit Access s)))"
    from "1.IH"[OF refl] False obtain out where "cout (sweep E ?t) = cout ?t @ out" by auto
    moreover obtain out1 where "cout ?t = cout (erase_back (emit Access s)) @ out1"
      using cout_removeObject(2)[of E "dtor_removes E (last (liveObjects s))"
          "erase_back (emit Access s)"]
      by auto
    moreover have "sweep E s = sweep E ?t"
      using False by (subst sweep_unfold) simp
    ultimately show ?thesis by simp
  qed
qed

lemma fold_LOG_leak_lines:
  "liveObjects (fold (\<lambda>obj t. LOG (leak_line (heap t obj)) (deref obj t)) xs s) = liveObjects s"
  "heap (fold (\<lambda>obj t. LOG (leak_line (heap t obj)) (deref obj t)) xs s) = heap s"
  "trace (fold (\<lambda>obj t. LOG (leak_line (heap t obj)) (deref obj t)) xs s) = trace s"
  "cout (fold (\<lambda>obj t. LOG (leak_line (heap t obj)) (deref obj t)) xs s)
     = cout s @ concat (map (\<lambda>obj. leak_line (heap s obj)) xs)"
  by (induction xs arbitrary: s) simp_all

lemma fold_deref_fields [simp]:
  "liveObjects (fold deref xs s) = liveObjects s"
  "heap (fold deref xs s) = heap s"
  "cout (fold deref xs s) = cout s"
  "trace (fold deref xs s) = trace s"
  "deleted (fold deref xs s) = deleted s"
  by (induction xs arbitrary: s) simp_all

lemma report_leaks_fields:
  "liveObjects (report_leaks E s) = liveObjects s"
  "heap (report_leaks E s) = heap s"
  "cout (report_leaks E s) =
     cout s @ (if isDebugLogEnabled E \<and> liveObjects s \<noteq> []
               then concat (map (\<lambda>obj. leak_line (heap s obj)) (liveObjects s)) @ [Endl]
               else [])"
  "trace (report_leaks E s) =
     trace s @ (if isDebugLogEnabled E
                then (if liveObjects s \<noteq> [] then [Access, Access] else [Access]) else [])"
  by (simp_all add: report_leaks_def Let_def fold_LOG_leak_lines)

subsection \<open>Iteration and search\<close>

lemma fold_record_call:
  "fold (\<lambda>obj u. record_call u (k obj) (f obj) (g obj)) xs u
     = u @ map (\<lambda>obj. (k obj, f obj, g obj)) xs"
  by (induction xs arbitrary: u) (simp_all add: record_call_def)

lemma iterateObjects_record_call:
  "fst (iterateObjects record_call [] s)
     = map (\<lambda>obj. (getBasePointer obj, typeName (heap s obj), referenceCount (heap s obj)))
         (liveObjects s)"
  by (simp add: iterateObjects_def Let_def fold_record_call)

lemma observations_eq:
  "liveObjects s' = liveObjects s \<Longrightarrow> heap s' = heap s \<Longrightarrow>
   fst (iterateObjects func userData s') = fst (iterateObjects func userData s)
   \<and> fst (findTrackedObject p s') = fst (findTrackedObject p s)"
  by (simp add: iterateObjects_def findTrackedObject_def Let_def)

lemma heap_addObject: "heap (addObject E obj s) = heap s"
  by (simp add: addObject_def emplace_def Let_def heap_removeObject)

lemma fold_visitor:
  "fold (\<lambda>obj u. func u (k obj) (f obj) (g obj)) xs u
     = foldl (\<lambda>u (p, n, r). func u p n r) u (map (\<lambda>obj. (k obj, f obj, g obj)) xs)"
  by (induction xs arbitrary: u) simp_all

lemma find_first_find: "find_first p h xs = List.find (\<lambda>obj. p obj (h obj)) xs"
  by (induction xs) simp_all

section \<open>The claims\<close>

subsection \<open>C1: the loop of the destructor\<close>

text \<open>
  C1. The loop of the destructor of the tracker destroys the objects that are left one
  at a time. Each round tests the container as it is then and erases its last element;
  nothing is decided from the elements that were there when the loop started. An object
  that the destructor of another one has removed in the meantime is not in the container
  any more and is not erased again, and a destructor that asks for the removal of an
  object that is gone already is answered as \<^verbatim>\<open>removeObject\<close> answers for any
  object that is not tracked. The destructors of the model call \<^verbatim>\<open>removeObject\<close>
  and never \<^verbatim>\<open>addObject\<close>, the proviso of the claim. Then, for every such choice of
  destructors and every state, the loop ends, the container is empty at the end, and
  the erasures of the loop and of the nested calls together erase every element that
  was in the container exactly once.
\<close>

theorem shutdown_sweep_empties:
  "sweep E s =
     (if liveObjects s = [] then emit Access s
      else sweep E (end_delete (last (liveObjects s))
             (run_dtor E (dtor_removes E (last (liveObjects s))) (erase_back (emit Access s)))))
   \<and> liveObjects (sweep E s) = []
   \<and> liveObjects (ObjectTracker_destructor E s) = []
   \<and> (\<exists>es. trace (sweep E s) = trace s @ es \<and> mset (erased es) = mset (liveObjects s))"
proof -
  obtain es where "trace (sweep E s) = trace s @ Access # es"
    "mset (erased es) = mset (liveObjects s)"
    using sweep_effect[of E s] by blast
  then have "trace (sweep E s) = trace s @ (Access # es)
      \<and> mset (erased (Access # es)) = mset (liveObjects s)"
    by simp
  then have "\<exists>es. trace (sweep E s) = trace s @ es \<and> mset (erased es) = mset (liveObjects s)"
    by blast
  then show ?thesis
    using sweep_unfold[of E s] sweep_effect[of E s] sweep_effect[of E "report_leaks E s"]
    by (simp add: ObjectTracker_destructor_def)
qed

text \<open>
  With the objects at 2 and 3 referencing one another: the loop erases 3, whose
  destructor removes 2, whose destructor finds 3 gone; the next round finds 1 only.
\<close>

theorem shutdown_sweep_empties_witness:
  "liveObjects (sweep mutual_env (tracker_of [1, 2, 3])) = []
   \<and> trace (sweep mutual_env (tracker_of [1, 2, 3]))
       = [Access, Erase 3,
          Call_removeObject 2, Lock, Access, Erase 2,
          Call_removeObject 3, Lock, Access, Unlock,
          Unlock,
          Access, Erase 1, Access]
   \<and> (\<exists>es. trace (sweep mutual_env (tracker_of [1, 2, 3])) = trace (tracker_of [1, 2, 3]) @ es
          \<and> mset (erased es) = mset (liveObjects (tracker_of [1, 2, 3])))"
  using shutdown_sweep_empties [of mutual_env "tracker_of [1, 2, 3]"]
  by (simp add: example_defs sweep.simps removeObject.simps Let_def)

subsection \<open>C2: removing an object that is not tracked\<close>

text \<open>
  What \<^verbatim>\<open>removeObject\<close> does for an object that the container does not hold: the
  tracked objects, the heap and the set of deleted objects stay as they were, the lock
  is taken and released and the container searched, and the trace line of a debug
  build and, when the debug log is enabled, the line that says that the object was not
  tracked are written. Each of the two lines reads the type name of the object, which
  is a fault when the tracker has deleted the object.
\<close>

lemma removeObject_not_tracked_effect:
  assumes "obj \<notin> set (liveObjects s)"
  shows "liveObjects (removeObject E obj s) = liveObjects s
       \<and> heap (removeObject E obj s) = heap s
       \<and> deleted (removeObject E obj s) = deleted s
       \<and> trace (removeObject E obj s) = trace s @ [Call_removeObject obj, Lock, Access, Unlock]
       \<and> cout (removeObject E obj s) =
           cout s
           @ (if DEBUG_MODE E
              then [Str ''Releasing live-time of object: '', Str (typeName (heap s obj)), Endl]
              else [])
           @ (if isDebugLogEnabled E
              then [Str ''Removing object not previously tracked: '',
                    Str (typeName (heap s obj)), Endl]
              else [])
       \<and> faults (removeObject E obj s) =
           faults s
           @ (if DEBUG_MODE E \<and> obj \<in> set (deleted s) then [Use_after_free obj] else [])
           @ (if isDebugLogEnabled E \<and> obj \<in> set (deleted s) then [Use_after_free obj] else [])"
  using assms by (simp add: removeObject_not_found)

text \<open>
  C2. The claim holds for the state of the tracker, and fails for "does not fail or
  crash" in the case of an object that was removed already: the first
  \<^verbatim>\<open>removeObject\<close> erases the element and deletes the object, and the second one,
  which does not find it, reads \<^verbatim>\<open>obj->typeName\<close> of the deleted object for the line
  "Removing object not previously tracked" when the debug log is enabled. Here the
  queue at 2 is removed twice: after the first call it is not tracked and no fault has
  occurred; the second call leaves the container as it is, writes the line and reads
  the deleted object. With the debug log disabled the second call reads nothing.
\<close>

theorem removeObject_twice_reads_deleted_object:
  "liveObjects (removeObject debug_env 2 (tracker_of [1, 2])) = [1]
   \<and> deleted (removeObject debug_env 2 (tracker_of [1, 2])) = [2]
   \<and> faults (removeObject debug_env 2 (tracker_of [1, 2])) = []
   \<and> liveObjects (removeObject debug_env 2 (removeObject debug_env 2 (tracker_of [1, 2]))) = [1]
   \<and> cout (removeObject debug_env 2 (removeObject debug_env 2 (tracker_of [1, 2])))
       = [Str ''Removing object not previously tracked: '', Str ''cl_command_queue'', Endl]
   \<and> faults (removeObject debug_env 2 (removeObject debug_env 2 (tracker_of [1, 2])))
       = [Use_after_free 2]
   \<and> faults (removeObject quiet_env 2 (removeObject quiet_env 2 (tracker_of [1, 2]))) = []"
  by (simp add: example_defs removeObject.simps Let_def)

subsection \<open>C3: what the container holds after a sequence of calls\<close>

text \<open>
  C3. For every sequence of calls of \<^verbatim>\<open>addObject\<close> and \<^verbatim>\<open>removeObject\<close> on the
  tracker as it is when the program starts, the container holds no address twice (it
  is sorted, too), and it holds an object if and only if the object has been added and
  not removed since, where the removals are those that the client asks for, which are
  all in the trace in their order, and those that the destructors ask for. So
  \<open>iterateObjects\<close> never reports the same identity twice. This holds for every
  sequence, also for one that adds an identity that is tracked already.
\<close>

theorem tracked_iff_added_and_not_removed:
  "distinct (liveObjects (run_calls E calls (initial_tracker h)))
   \<and> sorted (liveObjects (run_calls E calls (initial_tracker h)))
   \<and> (\<forall>a. a \<in> set (liveObjects (run_calls E calls (initial_tracker h)))
          \<longleftrightarrow> added_not_removed a (trace (run_calls E calls (initial_tracker h))))
   \<and> subseq (map call_event calls) (trace (run_calls E calls (initial_tracker h)))
   \<and> distinct (map fst (fst (iterateObjects record_call [] (run_calls E calls (initial_tracker h)))))"
proof -
  let ?s = "run_calls E calls (initial_tracker h)"
  have inv: "tracker_inv ?s"
    by (rule tracker_inv_run_calls) (rule tracker_inv_initial)
  have "map fst (fst (iterateObjects record_call [] ?s)) = liveObjects ?s"
    by (simp add: iterateObjects_record_call o_def getBasePointer_def)
  moreover have "subseq (map call_event calls) (trace ?s)"
    using trace_run_calls[of E calls "initial_tracker h"] by (auto simp: initial_tracker_def)
  ultimately show ?thesis
    using inv by (simp add: tracker_inv_def)
qed

theorem tracked_iff_added_and_not_removed_witness:
  "liveObjects (run_calls cascade_env [Add 1, Add 2, Add 3, Remove 2] (initial_tracker example_heap)) = [3]
   \<and> trace (run_calls cascade_env [Add 1, Add 2, Add 3, Remove 2] (initial_tracker example_heap))
      = [Call_addObject 1, Lock, Access, Unlock, Call_addObject 2, Lock, Access, Unlock,
         Call_addObject 3, Lock, Access, Unlock,
         Call_removeObject 2, Lock, Access, Erase 2, Call_removeObject 1, Lock, Access, Erase 1,
         Unlock, Unlock]
   \<and> \<not> added_not_removed 1 (trace (run_calls cascade_env [Add 1, Add 2, Add 3, Remove 2] (initial_tracker example_heap)))
   \<and> added_not_removed 3 (trace (run_calls cascade_env [Add 1, Add 2, Add 3, Remove 2] (initial_tracker example_heap)))
   \<and> (\<forall>a. a \<in> set (liveObjects (run_calls cascade_env [Add 1, Add 2, Add 3, Remove 2] (initial_tracker example_heap)))
         \<longleftrightarrow> added_not_removed a (trace (run_calls cascade_env [Add 1, Add 2, Add 3, Remove 2] (initial_tracker example_heap))))"
  using tracked_iff_added_and_not_removed [of cascade_env "[Add 1, Add 2, Add 3, Remove 2]" example_heap]
  by (simp add: example_defs run_calls_def initial_tracker_def addObject_def emplace_def
      removeObject.simps Let_def added_not_removed_def)

subsection \<open>C4: adding an object and removing it again\<close>

text \<open>
  C4, amended. For every state and every object that is not tracked and whose
  destructor removes no tracked object, \<^verbatim>\<open>addObject\<close> followed by
  \<^verbatim>\<open>removeObject\<close> for that object leaves the container and the heap as they
  were: \<open>iterateObjects\<close> reports the same to every callback and
  \<open>findTrackedObject\<close> finds the same for every predicate.
\<close>

theorem add_then_remove_restores:
  assumes "obj \<notin> set (liveObjects s)"
    and "set (dtor_removes E obj) \<inter> set (liveObjects s) = {}"
  shows "liveObjects (removeObject E obj (addObject E obj s)) = liveObjects s
       \<and> heap (removeObject E obj (addObject E obj s)) = heap s
       \<and> fst (iterateObjects func userData (removeObject E obj (addObject E obj s)))
           = fst (iterateObjects func userData s)
       \<and> fst (findTrackedObject p (removeObject E obj (addObject E obj s)))
           = fst (findTrackedObject p s)"
proof -
  let ?s1 = "addObject E obj s"
  have l1: "liveObjects ?s1 = insort obj (liveObjects s)"
    using assms(1) by (simp add: addObject_def emplace_def Let_def)
  then have "obj \<in> set (liveObjects ?s1)"
    by (simp add: set_insort_key)
  then have "liveObjects (removeObject E obj ?s1)
      = liveObjects (run_dtor E (dtor_removes E obj)
          (erase obj (emit Access (LOG_if (DEBUG_MODE E)
          [Str ''Releasing live-time of object: '', Str (typeName (heap ?s1 obj)), Endl]
          (deref_if (DEBUG_MODE E) obj (emit Lock (emit (Call_removeObject obj) ?s1)))))))"
    by (simp add: removeObject_found)
  also have "\<dots> = liveObjects s"
    using assms(2) l1 by (subst run_dtor_untracked) simp_all
  finally have live: "liveObjects (removeObject E obj ?s1) = liveObjects s" .
  have hp: "heap (removeObject E obj ?s1) = heap s"
    by (simp add: heap_removeObject heap_addObject)
  show ?thesis
    using live hp observations_eq[OF live hp] by simp
qed

theorem add_then_remove_restores_witness:
  "2 \<notin> set (liveObjects (tracker_of [1]))
   \<and> set (dtor_removes quiet_env 2) \<inter> set (liveObjects (tracker_of [1])) = {}
   \<and> liveObjects (removeObject quiet_env 2 (addObject quiet_env 2 (tracker_of [1]))) = [1]
   \<and> fst (iterateObjects record_call [] (removeObject quiet_env 2 (addObject quiet_env 2 (tracker_of [1]))))
       = [(1, ''cl_context'', 1)]
   \<and> fst (findTrackedObject is_queue (removeObject quiet_env 2 (addObject quiet_env 2 (tracker_of [1]))))
       = None"
  using add_then_remove_restores [of 2 "tracker_of [1]" quiet_env record_call "[]" is_queue]
  by (simp add: example_defs iterateObjects_def findTrackedObject_def record_call_def is_queue_def Let_def)

text \<open>
  Without the condition on the destructor the round trip changes what is tracked: the
  command queue at 2 is added and removed again, its destructor removes the context at
  1, which was tracked before, and the container is empty.
\<close>

theorem add_then_remove_counterexample:
  "2 \<notin> set (liveObjects (tracker_of [1]))
   \<and> fst (findTrackedObject any_object (tracker_of [1])) = Some 1
   \<and> fst (findTrackedObject any_object
            (removeObject cascade_env 2 (addObject cascade_env 2 (tracker_of [1])))) = None
   \<and> fst (iterateObjects record_call [] (tracker_of [1])) = [(1, ''cl_context'', 1)]
   \<and> fst (iterateObjects record_call []
            (removeObject cascade_env 2 (addObject cascade_env 2 (tracker_of [1])))) = []"
  by (simp add: example_defs addObject_def emplace_def removeObject.simps Let_def
      findTrackedObject_def iterateObjects_def any_object_def record_call_def)

subsection \<open>C5: \<open>iterateObjects\<close> calls the callback once for each object\<close>

text \<open>
  C5. For every state, \<open>iterateObjects\<close> calls the callback once for each tracked
  object, in the order of the container, with the identity of the object, its type name
  and its reference count: the callback that records its arguments returns, for the
  \<open>N\<close> tracked objects, the list of their \<open>N\<close> triples, whose multiset is that of
  the stored objects, and every other callback is folded over this same list. The
  tracked objects and the heap are left as they were, and
  \<^verbatim>\<open>clReportLiveObjectsAltera\<close> reports the same.
\<close>

theorem iterateObjects_visits_each_once:
  "fst (iterateObjects record_call [] s)
     = map (\<lambda>obj. (getBasePointer obj, typeName (heap s obj), referenceCount (heap s obj)))
         (liveObjects s)
   \<and> length (fst (iterateObjects record_call [] s)) = length (liveObjects s)
   \<and> mset (fst (iterateObjects record_call [] s))
       = image_mset (\<lambda>obj. (getBasePointer obj, typeName (heap s obj), referenceCount (heap s obj)))
           (mset (liveObjects s))
   \<and> fst (iterateObjects func userData s)
       = foldl (\<lambda>u (obj_ptr, type_name, refcount). func u obj_ptr type_name refcount) userData
           (fst (iterateObjects record_call [] s))
   \<and> liveObjects (snd (iterateObjects func userData s)) = liveObjects s
   \<and> heap (snd (iterateObjects func userData s)) = heap s
   \<and> fst (clReportLiveObjectsAltera E platform func userData s)
       = fst (iterateObjects func userData s)"
proof -
  have "fst (iterateObjects func userData s)
       = foldl (\<lambda>u (obj_ptr, type_name, refcount). func u obj_ptr type_name refcount) userData
           (fst (iterateObjects record_call [] s))"
    unfolding iterateObjects_record_call
    using fold_visitor [of func getBasePointer "\<lambda>obj. typeName (heap s obj)"
        "\<lambda>obj. referenceCount (heap s obj)" "liveObjects s" userData]
    by (simp add: iterateObjects_def Let_def)
  moreover have "fst (clReportLiveObjectsAltera E platform func userData s)
       = fst (iterateObjects func userData s)"
    by (simp add: clReportLiveObjectsAltera_def VC4CL_PRINT_API_CALL_def iterateObjects_def Let_def)
  ultimately show ?thesis
    by (simp add: iterateObjects_record_call) (simp add: iterateObjects_def Let_def)
qed

theorem iterateObjects_visits_each_once_witness:
  "fst (iterateObjects record_call [] (tracker_of [1, 2, 3]))
     = [(1, ''cl_context'', 1), (2, ''cl_command_queue'', 1), (3, ''cl_mem'', 1)]
   \<and> length (fst (iterateObjects record_call [] (tracker_of [1, 2, 3])))
       = length (liveObjects (tracker_of [1, 2, 3]))
   \<and> fst (clReportLiveObjectsAltera quiet_env 0 record_call [] (tracker_of [1, 2, 3]))
       = fst (iterateObjects record_call [] (tracker_of [1, 2, 3]))"
  using iterateObjects_visits_each_once [of "tracker_of [1, 2, 3]" record_call "[]" quiet_env 0]
  by (simp add: example_defs)

subsection \<open>C6: \<open>findTrackedObject\<close> returns the first match\<close>

text \<open>
  C6. For every state and every predicate, \<open>findTrackedObject\<close> returns
  \<^verbatim>\<open>nullptr\<close> if and only if no tracked object satisfies the predicate (so also
  when the container is empty), and it returns the object \<open>obj\<close> if and only if
  \<open>obj\<close> is a tracked object that satisfies the predicate and no object before it
  in the order of the container does. The tracked objects and the heap are left as they
  were.
\<close>

theorem findTrackedObject_first_match:
  "(fst (findTrackedObject p s) = None
      \<longleftrightarrow> (\<forall>obj \<in> set (liveObjects s). \<not> p obj (heap s obj)))
   \<and> (fst (findTrackedObject p s) = Some obj
      \<longleftrightarrow> (\<exists>i < length (liveObjects s).
             liveObjects s ! i = obj \<and> p obj (heap s obj)
             \<and> (\<forall>j < i. \<not> p (liveObjects s ! j) (heap s (liveObjects s ! j)))))
   \<and> liveObjects (snd (findTrackedObject p s)) = liveObjects s
   \<and> heap (snd (findTrackedObject p s)) = heap s"
proof -
  have r: "fst (findTrackedObject p s) = List.find (\<lambda>obj. p obj (heap s obj)) (liveObjects s)"
    by (simp add: findTrackedObject_def Let_def find_first_find)
  have "fst (findTrackedObject p s) = None
      \<longleftrightarrow> (\<forall>obj \<in> set (liveObjects s). \<not> p obj (heap s obj))"
    unfolding r by (auto simp: find_None_iff)
  moreover have "fst (findTrackedObject p s) = Some obj
      \<longleftrightarrow> (\<exists>i < length (liveObjects s).
             liveObjects s ! i = obj \<and> p obj (heap s obj)
             \<and> (\<forall>j < i. \<not> p (liveObjects s ! j) (heap s (liveObjects s ! j))))"
    unfolding r find_Some_iff by auto
  ultimately show ?thesis
    by (simp add: findTrackedObject_def Let_def)
qed

text \<open>
  Among the context at 1, the queue at 2 and the buffer at 3, the queue is found at
  index 1, after the context, which is no queue; without it, nothing is found.
\<close>

theorem findTrackedObject_first_match_witness:
  "fst (findTrackedObject is_queue (tracker_of [1, 2, 3])) = Some 2
   \<and> fst (findTrackedObject is_queue (tracker_of [1, 3])) = None"
proof -
  let ?s = "tracker_of [1, 2, 3]"
  have "(1::nat) < length (liveObjects ?s) \<and> liveObjects ?s ! 1 = 2 \<and> is_queue 2 (heap ?s 2)
        \<and> (\<forall>j < 1. \<not> is_queue (liveObjects ?s ! j) (heap ?s (liveObjects ?s ! j)))"
    by (simp add: example_defs is_queue_def)
  then have "\<exists>i < length (liveObjects ?s). liveObjects ?s ! i = 2 \<and> is_queue 2 (heap ?s 2)
        \<and> (\<forall>j < i. \<not> is_queue (liveObjects ?s ! j) (heap ?s (liveObjects ?s ! j)))"
    by blast
  then have a: "fst (findTrackedObject is_queue ?s) = Some 2"
    using findTrackedObject_first_match [of is_queue ?s 2] by blast
  let ?t = "tracker_of [1, 3]"
  have "\<forall>obj \<in> set (liveObjects ?t). \<not> is_queue obj (heap ?t obj)"
    by (simp add: example_defs is_queue_def)
  then have b: "fst (findTrackedObject is_queue ?t) = None"
    using findTrackedObject_first_match [of is_queue ?t 2] by blast
  from a b show ?thesis by simp
qed

subsection \<open>C7: the report of the objects that are left\<close>

text \<open>
  C7, amended. When the destructor of the tracker starts and the debug log is enabled,
  one line is written for each object that is still tracked, in the order of the
  container, with the reference count and the type name of the object and without its
  identity, and one line end after the last of them; the objects are still tracked
  then, and all that the destructor writes afterwards follows these lines. When the
  debug log is not enabled, or no object is tracked, nothing is reported. In both cases
  the destructor goes on and returns with the container empty.
\<close>

theorem leaks_reported_when_debug_log_enabled:
  "cout (report_leaks E s) =
     cout s @ (if isDebugLogEnabled E \<and> liveObjects s \<noteq> []
               then concat (map (\<lambda>obj. leak_line (heap s obj)) (liveObjects s)) @ [Endl]
               else [])
   \<and> leak_line (heap s obj) =
       [Str ''[VC4CL] Leaked object with '', UInt (referenceCount (heap s obj)),
        Str '' references: '', Str (typeName (heap s obj)), Str [CHR 0x0A]]
   \<and> Ptr a \<notin> set (leak_line (heap s obj))
   \<and> liveObjects (report_leaks E s) = liveObjects s
   \<and> (\<exists>rest. cout (ObjectTracker_destructor E s) = cout (report_leaks E s) @ rest)
   \<and> liveObjects (ObjectTracker_destructor E s) = []"
  using cout_sweep [of E "report_leaks E s"] sweep_effect [of E "report_leaks E s"]
  by (simp add: report_leaks_fields ObjectTracker_destructor_def) (simp add: leak_line_def)

theorem leaks_reported_when_debug_log_enabled_witness:
  "cout (report_leaks debug_env (tracker_of [1, 2])) =
     [Str ''[VC4CL] Leaked object with '', UInt 1, Str '' references: '', Str ''cl_context'',
      Str [CHR 0x0A],
      Str ''[VC4CL] Leaked object with '', UInt 1, Str '' references: '', Str ''cl_command_queue'',
      Str [CHR 0x0A],
      Endl]
   \<and> cout (report_leaks quiet_env (tracker_of [1, 2])) = []
   \<and> cout (report_leaks debug_env (tracker_of [])) = []"
  using leaks_reported_when_debug_log_enabled [of debug_env "tracker_of [1, 2]" 1 1]
    leaks_reported_when_debug_log_enabled [of quiet_env "tracker_of [1, 2]" 1 1]
    leaks_reported_when_debug_log_enabled [of debug_env "tracker_of []" 1 1]
  by (simp add: example_defs leak_line_def)

text \<open>
  The report depends on the configuration: with the debug log disabled, two objects
  are tracked when the destructor starts, both are destroyed, and nothing is written.
\<close>

theorem leaks_not_reported_counterexample:
  "liveObjects (tracker_of [1, 2]) = [1, 2]
   \<and> \<not> isDebugLogEnabled quiet_env
   \<and> cout (tracker_of [1, 2]) = []
   \<and> cout (ObjectTracker_destructor quiet_env (tracker_of [1, 2])) = []
   \<and> liveObjects (ObjectTracker_destructor quiet_env (tracker_of [1, 2])) = []"
  by (simp add: example_defs ObjectTracker_destructor_def report_leaks_def sweep.simps
      removeObject.simps Let_def)

subsection \<open>C8: which operations take the lock\<close>

text \<open>
  C8, amended. \<^verbatim>\<open>addObject\<close>, \<^verbatim>\<open>removeObject\<close>, \<open>iterateObjects\<close> and
  \<open>findTrackedObject\<close> take the lock before they access the container and release
  it at the end: the events of each of them, with those of the destructors they run,
  respect the lock from a thread that does not hold it, and leave it released. The
  destructor of the tracker does not take the lock: its first event is an access to the
  container, which does not respect the lock.
\<close>

theorem operations_take_the_lock:
  "(\<exists>es. trace (addObject E obj s) = trace s @ Call_addObject obj # es
        \<and> lock_discipline 0 es = Some 0)
   \<and> (\<exists>es. trace (removeObject E obj s) = trace s @ Call_removeObject obj # es
        \<and> lock_discipline 0 es = Some 0)
   \<and> trace (snd (iterateObjects func userData s)) = trace s @ [Lock, Access, Unlock]
   \<and> trace (snd (findTrackedObject p s)) = trace s @ [Lock, Access, Unlock]
   \<and> lock_discipline 0 [Lock, Access, Unlock] = Some 0
   \<and> (\<exists>es. trace (ObjectTracker_destructor E s) = trace s @ Access # es)
   \<and> lock_discipline 0 (Access # es') = None"
proof -
  obtain es where "trace (sweep E (report_leaks E s)) = trace (report_leaks E s) @ Access # es"
    using sweep_effect [of E "report_leaks E s"] by blast
  then have "\<exists>es. trace (ObjectTracker_destructor E s) = trace s @ Access # es"
    by (simp add: ObjectTracker_destructor_def report_leaks_fields)
  then show ?thesis
    using trace_addObject [of E obj s] trace_removeObject_call [of E obj s]
    by (simp add: iterateObjects_def findTrackedObject_def Let_def)
qed

theorem operations_take_the_lock_witness:
  "trace (addObject cascade_env 2 (tracker_of [1])) = [Call_addObject 2, Lock, Access, Unlock]
   \<and> trace (removeObject cascade_env 2 (tracker_of [1, 2]))
       = [Call_removeObject 2, Lock, Access, Erase 2,
          Call_removeObject 1, Lock, Access, Erase 1, Unlock, Unlock]
   \<and> lock_discipline 0 (trace (removeObject cascade_env 2 (tracker_of [1, 2]))) = Some 0
   \<and> (\<exists>es. trace (removeObject cascade_env 2 (tracker_of [1, 2]))
             = trace (tracker_of [1, 2]) @ Call_removeObject 2 # es
           \<and> lock_discipline 0 es = Some 0)"
  using operations_take_the_lock [of cascade_env 2 "tracker_of [1, 2]"]
  by (simp add: example_defs addObject_def emplace_def removeObject.simps Let_def)

text \<open>
  The destructor of a tracker with one object erases it without any acquisition of the
  lock.
\<close>

theorem sweep_without_lock_counterexample:
  "liveObjects (tracker_of [1]) = [1]
   \<and> trace (tracker_of [1]) = []
   \<and> trace (ObjectTracker_destructor quiet_env (tracker_of [1])) = [Access, Erase 1, Access]
   \<and> Lock \<notin> set (trace (ObjectTracker_destructor quiet_env (tracker_of [1])))
   \<and> lock_discipline 0 (trace (ObjectTracker_destructor quiet_env (tracker_of [1]))) = None"
  by (simp add: example_defs ObjectTracker_destructor_def report_leaks_def sweep.simps
      removeObject.simps Let_def)

subsection \<open>C9: adding an object that is tracked already\<close>

text \<open>
  What \<^verbatim>\<open>addObject\<close> does for an object that the container holds already: no
  element is added, whatever the destructors do, and the object is deleted, although
  the container still holds the element that owns it. The container is as it was when
  the destructor of the object removes no tracked object.
\<close>

lemma addObject_tracked_not_inserted:
  assumes "obj \<in> set (liveObjects s)"
  shows "mset (liveObjects (addObject E obj s)) \<subseteq># mset (liveObjects s)"
proof -
  let ?t = "begin_delete obj (emit Access (emit Lock (emit (Call_addObject obj) s)))"
  obtain es where "mset (erased es) + mset (liveObjects (run_dtor E (dtor_removes E obj) ?t))
      = mset (liveObjects ?t)"
    using trace_removeObject(2)[of E "dtor_removes E obj" ?t] by blast
  then have "mset (liveObjects (run_dtor E (dtor_removes E obj) ?t)) \<subseteq># mset (liveObjects s)"
    by (metis begin_delete_fields(1) emit_fields(1) mset_subset_eq_add_right)
  then show ?thesis
    using assms by (simp add: addObject_def emplace_def Let_def)
qed

lemma addObject_tracked_deletes:
  assumes "obj \<in> set (liveObjects s)"
  shows "obj \<in> set (deleted (addObject E obj s))"
  using assms by (simp add: addObject_def emplace_def Let_def)

lemma addObject_tracked_no_cascade:
  assumes "obj \<in> set (liveObjects s)"
    and "set (dtor_removes E obj) \<inter> set (liveObjects s) = {}"
  shows "liveObjects (addObject E obj s) = liveObjects s"
  using assms by (simp add: addObject_def emplace_def Let_def run_dtor_untracked)

text \<open>
  C9. The claim fails on the code. \<^verbatim>\<open>liveObjects.emplace(obj)\<close> builds a second
  \<^verbatim>\<open>unique_ptr\<close> for an object that an element of the container owns already; the
  insertion is refused and the new \<^verbatim>\<open>unique_ptr\<close> destroyed, which deletes the
  object. Here the queue at 2 is tracked and added again. With destructors that release
  nothing the container still lists 1 and 2, but the queue is deleted:
  \<open>iterateObjects\<close> then reads a deleted object, and the destructor of the tracker
  deletes it a second time, which it does not without the second \<^verbatim>\<open>addObject\<close>.
  When the destructor of the queue releases the context at 1, the second
  \<^verbatim>\<open>addObject\<close> removes the context from the container: the tracked identities
  change.
\<close>

theorem addObject_twice_deletes_tracked_object:
  "liveObjects (tracker_of [1, 2]) = [1, 2]
   \<and> liveObjects (addObject quiet_env 2 (tracker_of [1, 2])) = [1, 2]
   \<and> deleted (addObject quiet_env 2 (tracker_of [1, 2])) = [2]
   \<and> faults (snd (iterateObjects record_call [] (addObject quiet_env 2 (tracker_of [1, 2]))))
       = [Use_after_free 2]
   \<and> faults (ObjectTracker_destructor quiet_env (addObject quiet_env 2 (tracker_of [1, 2])))
       = [Double_free 2]
   \<and> faults (ObjectTracker_destructor quiet_env (tracker_of [1, 2])) = []
   \<and> liveObjects (addObject cascade_env 2 (tracker_of [1, 2])) = [2]"
  by (simp add: example_defs addObject_def emplace_def removeObject.simps Let_def
      iterateObjects_def ObjectTracker_destructor_def report_leaks_def sweep.simps)

subsection \<open>C10: \<^verbatim>\<open>clTrackLiveObjectsAltera\<close> does nothing\<close>

text \<open>
  C10. For every platform and every state, \<^verbatim>\<open>clTrackLiveObjectsAltera\<close> leaves the
  tracked objects, the heap and the trace as they were; all it may do is print the
  trace of the API call. Objects are tracked without it: an object added to the
  tracker as it is when the program starts is tracked.
\<close>

theorem clTrackLiveObjectsAltera_no_op:
  "liveObjects (clTrackLiveObjectsAltera E platform s) = liveObjects s
   \<and> heap (clTrackLiveObjectsAltera E platform s) = heap s
   \<and> trace (clTrackLiveObjectsAltera E platform s) = trace s
   \<and> cout (clTrackLiveObjectsAltera E platform s)
       = cout s @ PRINT_API_CALL E ''void'' ''clTrackLiveObjectsAltera'' [(''cl_platform_id'', platform)]
   \<and> liveObjects (addObject E obj (initial_tracker h)) = [obj]"
  by (simp add: clTrackLiveObjectsAltera_def VC4CL_PRINT_API_CALL_def addObject_def emplace_def
      initial_tracker_def Let_def)

theorem clTrackLiveObjectsAltera_no_op_witness:
  "liveObjects (clTrackLiveObjectsAltera quiet_env 7 (tracker_of [1, 2])) = [1, 2]
   \<and> cout (clTrackLiveObjectsAltera quiet_env 7 (tracker_of [1, 2])) = []
   \<and> trace (clTrackLiveObjectsAltera quiet_env 7 (tracker_of [1, 2])) = []"
  using clTrackLiveObjectsAltera_no_op [of quiet_env 7 "tracker_of [1, 2]" 1 example_heap]
  by (simp add: example_defs)

end
